theory Spec2Isabelle
  imports Main "HOL-Library.List_Lexorder" "HOL-Library.Sublist" "HOL-Library.AList"
begin

section \<open>WireWarden: interface lifecycle manager\<close>

text \<open>
  A shallow embedding of \<^verbatim>\<open>src/WireWarden.py\<close>. Python strings are sequences of Unicode
  code points, so a character is modelled by its code point and a string by the list of
  its code points; the order on strings is then Python's (lexicographic by code point).
  What the program asks of its environment (directory listing, file existence, effective
  user id, the search for \<^verbatim>\<open>pkexec\<close>, child processes) is read from an environment record
  indexed by a clock that advances with every such request, so the environment may answer
  differently at every request. What the program does to its environment (the requests
  themselves and the message boxes) is appended to a log in the state.
\<close>

subsection \<open>Python strings\<close>

type_synonym pychar = nat
type_synonym pystr = "pychar list"

definition ascii :: "string \<Rightarrow> pystr" where
  "ascii s = map of_char s"

text \<open>\<^verbatim>\<open>str.isspace\<close> on one character, the test behind \<^verbatim>\<open>str.strip()\<close> and
  \<^verbatim>\<open>str.split()\<close> without arguments: U+0009..U+000D, U+001C..U+0020, U+0085, U+00A0,
  U+1680, U+2000..U+200A, U+2028, U+2029, U+202F, U+205F, U+3000.\<close>

definition is_space :: "pychar \<Rightarrow> bool" where
  "is_space c = ((9 \<le> c \<and> c \<le> 13) \<or> (28 \<le> c \<and> c \<le> 32) \<or> c = 133 \<or> c = 160 \<or> c = 5760
     \<or> (8192 \<le> c \<and> c \<le> 8202) \<or> c = 8232 \<or> c = 8233 \<or> c = 8239 \<or> c = 8287 \<or> c = 12288)"

definition py_strip :: "pystr \<Rightarrow> pystr" where
  "py_strip s = rev (dropWhile is_space (rev (dropWhile is_space s)))"

text \<open>\<^verbatim>\<open>str.split()\<close> without arguments: skip a run of whitespace, take the run of
  non-whitespace that follows as a token, repeat.\<close>

function py_split :: "pystr \<Rightarrow> pystr list" where
  "py_split s =
     (case dropWhile is_space s of
        [] \<Rightarrow> []
      | c # cs \<Rightarrow> takeWhile (\<lambda>x. \<not> is_space x) (c # cs)
                 # py_split (dropWhile (\<lambda>x. \<not> is_space x) (c # cs)))"
  by pat_completeness auto
termination
proof (relation "measure length", goal_cases)
  case 1
  show ?case by simp
next
  case (2 s c cs)
  have "\<not> is_space c"
    using 2 hd_dropWhile [of is_space s] by auto
  then have "dropWhile (\<lambda>x. \<not> is_space x) (c # cs) = dropWhile (\<lambda>x. \<not> is_space x) cs"
    by simp
  moreover have "length (dropWhile (\<lambda>x. \<not> is_space x) cs) \<le> length cs"
    by (rule length_dropWhile_le)
  moreover have "length (c # cs) \<le> length s"
    using 2 length_dropWhile_le [of is_space s] by simp
  ultimately show ?case
    by simp
qed

declare py_split.simps [simp del]

text \<open>\<^verbatim>\<open>sep.join(xs)\<close>.\<close>

fun join :: "pystr \<Rightarrow> pystr list \<Rightarrow> pystr" where
  "join sep [] = []"
| "join sep [x] = x"
| "join sep (x # y # ys) = x @ sep @ join sep (y # ys)"

subsection \<open>The name pattern\<close>

text \<open>The character class \<^verbatim>\<open>[A-Za-z0-9_=+.-]\<close>.\<close>

definition in_class :: "pychar \<Rightarrow> bool" where
  "in_class c = ((65 \<le> c \<and> c \<le> 90) \<or> (97 \<le> c \<and> c \<le> 122) \<or> (48 \<le> c \<and> c \<le> 57)
     \<or> c = 95 \<or> c = 61 \<or> c = 43 \<or> c = 46 \<or> c = 45)"

text \<open>Python's \<^verbatim>\<open>$\<close> (no MULTILINE flag) holds at the end of the string and also just
  before a newline that is the last character of the string.\<close>

definition at_dollar :: "pystr \<Rightarrow> bool" where
  "at_dollar rest = (rest = [] \<or> rest = [10])"

text \<open>\<^verbatim>\<open>VALID_IFACE_PATTERN.match(s)\<close> for the pattern \<^verbatim>\<open>^[A-Za-z0-9_=+.-]+$\<close>, as a truth
  value: some number \<open>n \<ge> 1\<close> of leading characters are all in the class and \<^verbatim>\<open>$\<close> holds
  at what remains.\<close>

definition VALID_IFACE_PATTERN_match :: "pystr \<Rightarrow> bool" where
  "VALID_IFACE_PATTERN_match s =
     list_ex (\<lambda>n. list_all in_class (take n s) \<and> at_dollar (drop n s)) [1..<Suc (length s)]"

subsection \<open>Paths\<close>

text \<open>\<^verbatim>\<open>s.rfind(c)\<close>, with \<open>None\<close> for \<^verbatim>\<open>-1\<close>.\<close>

definition rfind :: "pychar \<Rightarrow> pystr \<Rightarrow> nat option" where
  "rfind c s = (case dropWhile (\<lambda>x. x \<noteq> c) (rev s) of [] \<Rightarrow> None | _ # r \<Rightarrow> Some (length r))"

text \<open>\<^verbatim>\<open>PurePath.stem\<close> of a file name (pathlib of Python 3.8 to 3.13): the name up to its
  last dot, when that dot is neither the first nor the last character.\<close>

definition stem :: "pystr \<Rightarrow> pystr" where
  "stem name =
     (case rfind 46 name of
        None \<Rightarrow> name
      | Some i \<Rightarrow> if 0 < i \<and> i < length name - 1 then take i name else name)"

text \<open>The pattern \<^verbatim>\<open>*.conf\<close> of \<^verbatim>\<open>Path.glob\<close> on a file name: the name ends with
  \<^verbatim>\<open>.conf\<close> (the star also matches nothing and a leading dot).\<close>

definition glob_match :: "pystr \<Rightarrow> bool" where
  "glob_match name = (drop (length name - 5) name = ascii ''.conf'')"

subsection \<open>Environment, effects and window state\<close>

datatype exn = FileNotFoundError pystr | OtherException pystr

fun exn_str :: "exn \<Rightarrow> pystr" where
  "exn_str (FileNotFoundError m) = m"
| "exn_str (OtherException m) = m"

datatype completed_process =
  CompletedProcess (returncode: int) (stdout: pystr) (stderr: pystr)

text \<open>The environment at each request, numbered by the clock of the state:
  the names of the entries of the application directory, the string of the path
  \<^verbatim>\<open>app_dir / s\<close>, whether a path exists, the effective user id, the result of
  \<^verbatim>\<open>shutil.which("pkexec")\<close>, and the outcome of \<^verbatim>\<open>subprocess.run\<close> on an argument
  vector (an exception raised, or a completed process).\<close>

record env =
  listing :: "nat \<Rightarrow> pystr list"
  app_dir_join :: "pystr \<Rightarrow> pystr"
  path_exists :: "nat \<Rightarrow> pystr \<Rightarrow> bool"
  geteuid :: "nat \<Rightarrow> nat"
  which_pkexec :: "nat \<Rightarrow> pystr option"
  subprocess_run :: "nat \<Rightarrow> pystr list \<Rightarrow> exn + completed_process"

datatype box_kind = Critical | Warning

datatype effect =
    Glob
  | Exists pystr
  | Geteuid
  | Which
  | Run "pystr list"
  | MessageBox box_kind pystr pystr

text \<open>An \<^verbatim>\<open>IfaceCard\<close>: its name and whether its two buttons are enabled. A new
  \<^verbatim>\<open>QPushButton\<close> is enabled.\<close>

record iface_card =
  card_name :: pystr
  up_enabled :: bool
  down_enabled :: bool

definition IfaceCard :: "pystr \<Rightarrow> iface_card" where
  "IfaceCard name = \<lparr>card_name = name, up_enabled = True, down_enabled = True\<rparr>"

definition set_state :: "bool \<Rightarrow> iface_card \<Rightarrow> iface_card" where
  "set_state is_up c =
     (if is_up then c\<lparr>up_enabled := False, down_enabled := True\<rparr>
      else c\<lparr>up_enabled := True, down_enabled := False\<rparr>)"

text \<open>The window: the card widgets of \<^verbatim>\<open>cards_layout\<close> in order, the dictionary
  \<^verbatim>\<open>cards\<close> from a name to its card (the position of the widget in the layout, kept
  in insertion order), the text of the status label; with them the clock and the log of
  effects.\<close>

record state =
  cards_layout :: "iface_card list"
  cards :: "(pystr \<times> nat) list"
  status_label :: pystr
  clock :: nat
  effects :: "effect list"

definition request :: "effect \<Rightarrow> state \<Rightarrow> state" where
  "request e s = s\<lparr>clock := Suc (clock s), effects := effects s @ [e]\<rparr>"

definition message_box :: "box_kind \<Rightarrow> pystr \<Rightarrow> pystr \<Rightarrow> state \<Rightarrow> state" where
  "message_box k title msg s = s\<lparr>effects := effects s @ [MessageBox k title msg]\<rparr>"

subsection \<open>Scanning the directory\<close>

text \<open>\<^verbatim>\<open>sorted(self.app_dir.glob("*.conf"))\<close>: the paths share their directory, so they
  are ordered by file name.\<close>

definition sorted_glob :: "env \<Rightarrow> state \<Rightarrow> pystr list \<times> state" where
  "sorted_glob E s = (sort (filter glob_match (listing E (clock s))), request Glob s)"

definition check_invalid_configs :: "env \<Rightarrow> state \<Rightarrow> pystr list \<times> state" where
  "check_invalid_configs E s =
     (case sorted_glob E s of
        (paths, s1) \<Rightarrow> (filter (\<lambda>p. \<not> VALID_IFACE_PATTERN_match (stem p)) paths, s1))"

fun add_cards :: "pystr list \<Rightarrow> state \<Rightarrow> state" where
  "add_cards [] s = s"
| "add_cards (p # ps) s =
     (let name = stem p in
      if \<not> VALID_IFACE_PATTERN_match name then add_cards ps s
      else add_cards ps
             (s\<lparr>cards_layout := cards_layout s @ [IfaceCard name],
                cards := AList.update name (length (cards_layout s)) (cards s)\<rparr>))"

definition load_configs :: "env \<Rightarrow> state \<Rightarrow> state" where
  "load_configs E s =
     (case sorted_glob E (s\<lparr>cards_layout := [], cards := []\<rparr>) of
        (paths, s1) \<Rightarrow> add_cards paths s1)"

subsection \<open>Probing and refreshing\<close>

definition probe_argv :: "pystr list" where
  "probe_argv = [ascii ''wg'', ascii ''show'', ascii ''interfaces'']"

definition get_active_ifaces :: "env \<Rightarrow> state \<Rightarrow> (exn + pystr set) \<times> state" where
  "get_active_ifaces E s =
     (let s1 = request (Run probe_argv) s in
      case subprocess_run E (clock s) probe_argv of
        Inl (FileNotFoundError m) \<Rightarrow> (Inr {}, s1)
      | Inl (OtherException m) \<Rightarrow> (Inl (OtherException m), s1)
      | Inr result \<Rightarrow>
          if returncode result \<noteq> 0 then (Inr {}, s1)
          else (Inr (set (py_split (py_strip (stdout result)))), s1))"

definition set_states :: "pystr set \<Rightarrow> (pystr \<times> nat) list \<Rightarrow> iface_card list \<Rightarrow> iface_card list" where
  "set_states active d lay =
     foldl (\<lambda>l (name, i). l[i := set_state (name \<in> active) (l ! i)]) lay d"

definition active_text :: "pystr set \<Rightarrow> pystr" where
  "active_text active =
     ascii ''Active: '' @
     (if active \<noteq> {} then join (ascii '', '') (sorted_list_of_set active) else ascii ''none'')"

definition refresh :: "env \<Rightarrow> state \<Rightarrow> (exn + unit) \<times> state" where
  "refresh E s =
     (case get_active_ifaces E s of
        (Inl e, s1) \<Rightarrow> (Inl e, s1)
      | (Inr active, s1) \<Rightarrow>
          (Inr (), s1\<lparr>cards_layout := set_states active (cards s1) (cards_layout s1),
                      status_label := active_text active\<rparr>))"

subsection \<open>Transitions\<close>

text \<open>Lines 217 to 222 of \<^verbatim>\<open>run_wg_quick\<close>: the argument vector, with \<^verbatim>\<open>pkexec\<close> in front
  when the process is not root and \<^verbatim>\<open>shutil.which\<close> found it.\<close>

definition wg_quick_cmd :: "env \<Rightarrow> pystr \<Rightarrow> bool \<Rightarrow> state \<Rightarrow> pystr list \<times> state" where
  "wg_quick_cmd E path up s =
     (let cmd = [ascii ''wg-quick'', if up then ascii ''up'' else ascii ''down'', path];
          needs_elev = (geteuid E (clock s) \<noteq> 0);
          s1 = request Geteuid s;
          pkexec = which_pkexec E (clock s1);
          s2 = request Which s1
      in case pkexec of
           None \<Rightarrow> (cmd, s2)
         | Some p \<Rightarrow> if needs_elev \<and> p \<noteq> [] then (p # cmd, s2) else (cmd, s2))"

text \<open>\<^verbatim>\<open>proc.stderr.strip() or proc.stdout.strip() or "wg-quick failed"\<close>.\<close>

definition failure_msg :: "completed_process \<Rightarrow> pystr" where
  "failure_msg proc =
     (if py_strip (stderr proc) \<noteq> [] then py_strip (stderr proc)
      else if py_strip (stdout proc) \<noteq> [] then py_strip (stdout proc)
      else ascii ''wg-quick failed'')"

text \<open>\<^verbatim>\<open>str(self.app_dir / f"{name}.conf")\<close>.\<close>

definition conf_path :: "env \<Rightarrow> pystr \<Rightarrow> pystr" where
  "conf_path E name = app_dir_join E (name @ ascii ''.conf'')"

definition run_wg_quick :: "env \<Rightarrow> pystr \<Rightarrow> bool \<Rightarrow> state \<Rightarrow> (exn + unit) \<times> state" where
  "run_wg_quick E name up s =
     (let found = path_exists E (clock s) (conf_path E name);
          s1 = request (Exists (conf_path E name)) s
      in if \<not> found then
           (Inr (), message_box Critical (ascii ''Error'')
                      (ascii ''Config not found: '' @ conf_path E name) s1)
         else
           case wg_quick_cmd E (conf_path E name) up s1 of
             (cmd, s2) \<Rightarrow>
               let s3 = s2\<lparr>status_label := ascii ''Running: '' @ join (ascii '' '') cmd\<rparr>;
                   s4 = request (Run cmd) s3
               in case subprocess_run E (clock s3) cmd of
                    Inl e \<Rightarrow>
                      (Inr (), message_box Critical (ascii ''Execution failed'') (exn_str e) s4)
                  | Inr proc \<Rightarrow>
                      if returncode proc \<noteq> 0 then
                        refresh E (message_box Warning (ascii ''wg-quick error'')
                                     (failure_msg proc) s4)
                      else refresh E s4)"

definition conflict_msg :: "pystr set \<Rightarrow> pystr \<Rightarrow> pystr" where
  "conflict_msg active name =
     ascii ''Another WireGuard interface is active: '' @
     join (ascii '', '') (sorted_list_of_set active) @ ascii ''.'' @ [10] @
     ascii ''Disconnect it before bringing up '' @ name @ ascii ''.''"

definition bring_up :: "env \<Rightarrow> pystr \<Rightarrow> state \<Rightarrow> (exn + unit) \<times> state" where
  "bring_up E name s =
     (case get_active_ifaces E s of
        (Inl e, s1) \<Rightarrow> (Inl e, s1)
      | (Inr active, s1) \<Rightarrow>
          if active \<noteq> {} \<and> name \<notin> active then
            (Inr (), message_box Warning (ascii ''Disconnect first'')
                       (conflict_msg active name) s1)
          else if name \<in> active then (Inr (), s1)
          else run_wg_quick E name True s1)"

definition bring_down :: "env \<Rightarrow> pystr \<Rightarrow> state \<Rightarrow> (exn + unit) \<times> state" where
  "bring_down E name s =
     (case get_active_ifaces E s of
        (Inl e, s1) \<Rightarrow> (Inl e, s1)
      | (Inr active, s1) \<Rightarrow>
          if name \<notin> active then (Inr (), s1)
          else run_wg_quick E name False s1)"

subsection \<open>Startup and the event loop\<close>

definition invalid_msg :: "pystr list \<Rightarrow> pystr" where
  "invalid_msg invalid_files =
     ascii ''The following config files have invalid names and cannot be used by WireGuard:''
     @ [10, 10] @ join [10] invalid_files @ [10, 10] @
     ascii ''File names must only contain letters, numbers, '' @
     [39] @ ascii ''+'' @ [39] @ ascii '', '' @ [39] @ ascii ''-'' @ [39] @ ascii '', '' @
     [39] @ ascii ''_'' @ [39] @ ascii '', '' @ [39] @ ascii ''='' @ [39] @ ascii '', or '' @
     [39] @ ascii ''.'' @ [39] @ ascii '' and have no spaces.''"

text \<open>\<^verbatim>\<open>MainWindow.__init__\<close>, from the empty window with status \<^verbatim>\<open>Idle\<close>.\<close>

definition initial :: state where
  "initial = \<lparr>cards_layout = [], cards = [], status_label = ascii ''Idle'',
              clock = 0, effects = []\<rparr>"

definition init :: "env \<Rightarrow> (exn + unit) \<times> state" where
  "init E =
     (case check_invalid_configs E initial of
        (invalid_files, s1) \<Rightarrow>
          if invalid_files \<noteq> [] then
            refresh E (message_box Critical (ascii ''Invalid Config Filenames'')
                         (invalid_msg invalid_files) s1)
          else refresh E (load_configs E s1))"

text \<open>What the event loop delivers to the window: the timer's timeout, and a click on the
  UP or DOWN button of the card at a position of the layout. A button that is disabled,
  or absent, delivers nothing.\<close>

datatype gui_event = Timeout | UpClicked nat | DownClicked nat

definition dispatch :: "env \<Rightarrow> gui_event \<Rightarrow> state \<Rightarrow> (exn + unit) \<times> state" where
  "dispatch E ev s =
     (case ev of
        Timeout \<Rightarrow> refresh E s
      | UpClicked i \<Rightarrow>
          if i < length (cards_layout s) \<and> up_enabled (cards_layout s ! i)
          then bring_up E (card_name (cards_layout s ! i)) s else (Inr (), s)
      | DownClicked i \<Rightarrow>
          if i < length (cards_layout s) \<and> down_enabled (cards_layout s ! i)
          then bring_down E (card_name (cards_layout s ! i)) s else (Inr (), s))"

text \<open>The loop ends with the first exception that a handler lets through.\<close>

fun run_events :: "env \<Rightarrow> gui_event list \<Rightarrow> state \<Rightarrow> (exn + unit) \<times> state" where
  "run_events E [] s = (Inr (), s)"
| "run_events E (ev # evs) s =
     (case dispatch E ev s of
        (Inl e, s1) \<Rightarrow> (Inl e, s1)
      | (Inr u, s1) \<Rightarrow> run_events E evs s1)"

definition main :: "env \<Rightarrow> gui_event list \<Rightarrow> (exn + unit) \<times> state" where
  "main E evs =
     (case init E of
        (Inl e, s) \<Rightarrow> (Inl e, s)
      | (Inr u, s) \<Rightarrow> run_events E evs s)"

subsection \<open>Notions used by the properties\<close>

text \<open>An effect is an invocation of the up/down tool when it runs an argument vector
  that holds \<^verbatim>\<open>wg-quick\<close>.\<close>

definition is_transition_cmd :: "effect \<Rightarrow> bool" where
  "is_transition_cmd e = (case e of Run argv \<Rightarrow> ascii ''wg-quick'' \<in> set argv | _ \<Rightarrow> False)"

text \<open>The whitespace-separated tokens of a string, in the words of the specification:
  the non-empty runs of non-whitespace characters that are bounded on each side by
  whitespace or by an end of the string.\<close>

definition ws_tokens :: "pystr \<Rightarrow> pystr set" where
  "ws_tokens s =
     {t. t \<noteq> [] \<and> \<not> list_ex is_space t \<and>
         (\<exists>pre post. s = pre @ t @ post \<and>
            (pre = [] \<or> is_space (last pre)) \<and> (post = [] \<or> is_space (hd post)))}"

text \<open>What the window offers: the names of the cards of the layout, in order. The number
  of directory scans made so far. Two states have the same offer when they agree on the
  offered names, on the dictionary of cards and on the number of scans.\<close>

definition offered :: "state \<Rightarrow> pystr list" where
  "offered s = map card_name (cards_layout s)"

definition scans :: "state \<Rightarrow> nat" where
  "scans s = length (filter (\<lambda>e. e = Glob) (effects s))"

definition same_offer :: "state \<Rightarrow> state \<Rightarrow> bool" where
  "same_offer s s' = (offered s' = offered s \<and> cards s' = cards s \<and> scans s' = scans s)"


text \<open>Example environments: a directory listing over time, whether configuration paths
  exist, the outcome of the probe over time and the outcome of \<^verbatim>\<open>wg-quick\<close>; the
  process runs as user 1000 and \<^verbatim>\<open>pkexec\<close> is installed.\<close>

definition example_env ::
  "(nat \<Rightarrow> pystr list) \<Rightarrow> bool \<Rightarrow> (nat \<Rightarrow> exn + completed_process) \<Rightarrow>
     (exn + completed_process) \<Rightarrow> env" where
  "example_env files found probe quick =
     \<lparr>listing = files,
      app_dir_join = (\<lambda>p. ascii ''/opt/ww/'' @ p),
      path_exists = (\<lambda>t p. found),
      geteuid = (\<lambda>t. 1000),
      which_pkexec = (\<lambda>t. Some (ascii ''/usr/bin/pkexec'')),
      subprocess_run = (\<lambda>t argv. if argv = probe_argv then probe t else quick)\<rparr>"

definition exited :: "int \<Rightarrow> pystr \<Rightarrow> pystr \<Rightarrow> exn + completed_process" where
  "exited rc out err = Inr (CompletedProcess rc out err)"


section \<open>Properties\<close>

subsection \<open>Strings and tokens\<close>

lemma takeWhile_run:
  assumes "\<forall>x\<in>set t. P x" and "post = [] \<or> \<not> P (hd post)"
  shows "takeWhile P (t @ post) = t"
  using assms by (cases post) (simp_all add: takeWhile_append2)

lemma py_split_all_space:
  "dropWhile is_space s = [] \<Longrightarrow> py_split s = []"
  by (subst py_split.simps) (simp only: list.simps)

lemma py_split_step:
  assumes "dropWhile is_space s = c # cs"
  shows "py_split s = takeWhile (\<lambda>x. \<not> is_space x) (c # cs)
           # py_split (dropWhile (\<lambda>x. \<not> is_space x) (c # cs))"
  using assms by (subst py_split.simps) simp

lemma ws_tokensI:
  "t \<noteq> [] \<Longrightarrow> \<not> list_ex is_space t \<Longrightarrow> s = pre @ t @ post \<Longrightarrow>
   pre = [] \<or> is_space (last pre) \<Longrightarrow> post = [] \<or> is_space (hd post) \<Longrightarrow> t \<in> ws_tokens s"
  unfolding ws_tokens_def by blast

lemma ws_tokens_all_space:
  assumes "dropWhile is_space s = []"
  shows "ws_tokens s = {}"
proof -
  have sp: "\<forall>x\<in>set s. is_space x"
    using assms by (simp add: dropWhile_eq_Nil_conv)
  {
    fix t pre post
    assume t: "t \<noteq> []" "\<not> list_ex is_space t" "s = pre @ t @ post"
    then have "hd t \<in> set s" by (cases t) auto
    with sp have "is_space (hd t)" by blast
    moreover have "hd t \<in> set t" using t(1) by simp
    ultimately have False using t(2) by (auto simp: list_ex_iff)
  }
  then show ?thesis
    unfolding ws_tokens_def by blast
qed

lemma ws_tokens_step:
  assumes d: "dropWhile is_space s = c # cs"
  shows "ws_tokens s =
           insert (takeWhile (\<lambda>x. \<not> is_space x) (c # cs))
             (ws_tokens (dropWhile (\<lambda>x. \<not> is_space x) (c # cs)))"
proof -
  define ws where "ws = takeWhile is_space s"
  define tok where "tok = takeWhile (\<lambda>x. \<not> is_space x) (c # cs)"
  define rest where "rest = dropWhile (\<lambda>x. \<not> is_space x) (c # cs)"
  have s: "s = ws @ tok @ rest"
    using d takeWhile_dropWhile_id [of is_space s]
    by (simp add: ws_def tok_def rest_def)
  have ws_sp: "\<forall>x\<in>set ws. is_space x"
    unfolding ws_def by (auto dest: set_takeWhileD)
  have c: "\<not> is_space c"
    using d hd_dropWhile [of is_space s] by auto
  have tok_ne: "tok \<noteq> []"
    using c by (simp add: tok_def)
  have tok_ns: "\<forall>x\<in>set tok. \<not> is_space x"
    unfolding tok_def by (auto dest: set_takeWhileD)
  have rest_hd: "rest = [] \<or> is_space (hd rest)"
    unfolding rest_def using hd_dropWhile [of "\<lambda>x. \<not> is_space x" "c # cs"] by blast
  have d2: "c # cs = tok @ rest"
    by (simp add: tok_def rest_def)
  have "ws_tokens s = insert tok (ws_tokens rest)"
  proof (intro set_eqI iffI)
    fix t assume "t \<in> ws_tokens s"
    then obtain pre post where t: "t \<noteq> []" "\<not> list_ex is_space t" "s = pre @ t @ post"
        "pre = [] \<or> is_space (last pre)" "post = [] \<or> is_space (hd post)"
      unfolding ws_tokens_def by blast
    have t_ns: "\<forall>x\<in>set t. \<not> is_space x"
      using t(2) by (simp add: list_ex_iff)
    have "\<exists>us. pre = ws @ us \<and> tok @ rest = us @ t @ post"
    proof -
      have "ws @ (tok @ rest) = pre @ (t @ post)" using t(3) s by simp
      then obtain us where "ws = pre @ us \<and> us @ (tok @ rest) = t @ post \<or> ws @ us = pre \<and> tok @ rest = us @ (t @ post)"
        unfolding append_eq_append_conv2 by blast
      then show ?thesis
      proof
        assume a: "ws = pre @ us \<and> us @ (tok @ rest) = t @ post"
        show ?thesis
        proof (cases us)
          case Nil
          with a show ?thesis by auto
        next
          case (Cons u us')
          with a have "hd t = u" using t(1) by (cases t) auto
          moreover have "is_space u" using a Cons ws_sp by auto
          moreover have "hd t \<in> set t" using t(1) by simp
          ultimately show ?thesis using t_ns by blast
        qed
      next
        assume "ws @ us = pre \<and> tok @ rest = us @ (t @ post)"
        then show ?thesis by auto
      qed
    qed
    then obtain us where us: "pre = ws @ us" "tok @ rest = us @ t @ post" by blast
    show "t \<in> insert tok (ws_tokens rest)"
    proof (cases "us = []")
      case True
      have "takeWhile (\<lambda>x. \<not> is_space x) (t @ post) = t"
        using t_ns t(5) by (intro takeWhile_run) auto
      moreover have "takeWhile (\<lambda>x. \<not> is_space x) (tok @ rest) = tok"
        using tok_ns rest_hd by (intro takeWhile_run) auto
      ultimately have "t = tok" using us(2) True by simp
      then show ?thesis by simp
    next
      case False
      then have lsp: "is_space (last us)" using t(4) us(1) by simp
      have lin: "last us \<in> set us" using False by simp
      from d2 us(2) have cc: "c # cs = us @ t @ post" by (rule trans)
      have "takeWhile (\<lambda>x. \<not> is_space x) (us @ t @ post) = takeWhile (\<lambda>x. \<not> is_space x) us"
        by (rule takeWhile_append1 [OF lin]) (simp add: lsp)
      then have "tok = takeWhile (\<lambda>x. \<not> is_space x) us"
        unfolding tok_def cc .
      moreover have "dropWhile (\<lambda>x. \<not> is_space x) (us @ t @ post)
                       = dropWhile (\<lambda>x. \<not> is_space x) us @ t @ post"
        by (rule dropWhile_append1 [OF lin]) (simp add: lsp)
      then have r: "rest = dropWhile (\<lambda>x. \<not> is_space x) us @ t @ post"
        unfolding rest_def cc .
      moreover have ne: "dropWhile (\<lambda>x. \<not> is_space x) us \<noteq> []"
        using lin lsp by (auto simp: dropWhile_eq_Nil_conv)
      moreover have "last (dropWhile (\<lambda>x. \<not> is_space x) us) = last us"
        using ne takeWhile_dropWhile_id [of "\<lambda>x. \<not> is_space x" us]
        by (metis last_appendR)
      ultimately have "t \<in> ws_tokens rest"
        using t(1,2,5) lsp
        by (intro ws_tokensI [of t rest "dropWhile (\<lambda>x. \<not> is_space x) us" post]) simp_all
      then show ?thesis by simp
    qed
  next
    fix t assume "t \<in> insert tok (ws_tokens rest)"
    then consider "t = tok" | "t \<in> ws_tokens rest" by blast
    then show "t \<in> ws_tokens s"
    proof cases
      case 1
      have "ws = [] \<or> is_space (last ws)"
        using ws_sp by (cases "ws = []") auto
      moreover have "\<not> list_ex is_space tok"
        using tok_ns by (simp add: list_ex_iff)
      ultimately show ?thesis
        using 1 s tok_ne rest_hd by (intro ws_tokensI [of t s ws rest]) simp_all
    next
      case 2
      then obtain pre post where t: "t \<noteq> []" "\<not> list_ex is_space t" "rest = pre @ t @ post"
        "pre = [] \<or> is_space (last pre)" "post = [] \<or> is_space (hd post)"
        unfolding ws_tokens_def by blast
      have "pre \<noteq> []"
      proof
        assume "pre = []"
        with t have "hd rest = hd t" "rest \<noteq> []" by auto
        with rest_hd have "is_space (hd t)" by auto
        moreover have "hd t \<in> set t" using t(1) by simp
        ultimately show False using t(2) by (auto simp: list_ex_iff)
      qed
      then have "is_space (last ((ws @ tok) @ pre))" using t(4) by simp
      moreover have "s = ((ws @ tok) @ pre) @ t @ post" using s t(3) by simp
      ultimately show ?thesis
        using t(1,2,5) by (intro ws_tokensI [of t s "(ws @ tok) @ pre" post]) simp_all
    qed
  qed
  then show ?thesis by (simp add: tok_def rest_def)
qed

lemma set_py_split: "set (py_split s) = ws_tokens s"
proof (induction s rule: py_split.induct)
  case (1 s)
  show ?case
  proof (cases "dropWhile is_space s")
    case Nil
    then show ?thesis by (simp add: py_split_all_space ws_tokens_all_space)
  next
    case (Cons c cs)
    with 1 have "set (py_split (dropWhile (\<lambda>x. \<not> is_space x) (c # cs)))
                   = ws_tokens (dropWhile (\<lambda>x. \<not> is_space x) (c # cs))"
      by simp
    with Cons show ?thesis
      by (simp add: py_split_step ws_tokens_step)
  qed
qed

lemma py_split_snoc_space:
  "is_space w \<Longrightarrow> py_split (s @ [w]) = py_split s"
proof (induction s rule: py_split.induct)
  case (1 s)
  show ?case
  proof (cases "dropWhile is_space s")
    case Nil
    then have "\<forall>x\<in>set s. is_space x" by (simp add: dropWhile_eq_Nil_conv)
    then have "dropWhile is_space (s @ [w]) = []"
      using 1(2) by (simp add: dropWhile_eq_Nil_conv)
    with Nil show ?thesis by (simp add: py_split_all_space)
  next
    case (Cons c cs)
    have c: "\<not> is_space c"
      using Cons hd_dropWhile [of is_space s] by auto
    have "c \<in> set s" using Cons set_dropWhileD [of c is_space s] by simp
    then have d: "dropWhile is_space (s @ [w]) = c # (cs @ [w])"
      using Cons c dropWhile_append1 [of c s is_space "[w]"] by simp
    have tk: "takeWhile (\<lambda>x. \<not> is_space x) (c # (cs @ [w])) = takeWhile (\<lambda>x. \<not> is_space x) (c # cs)"
      using 1(2) by (simp add: takeWhile_tail)
    have dr: "dropWhile (\<lambda>x. \<not> is_space x) (c # (cs @ [w])) = dropWhile (\<lambda>x. \<not> is_space x) (c # cs) @ [w]"
    proof (cases "\<forall>x\<in>set cs. \<not> is_space x")
      case True
      then show ?thesis using c 1(2) by (simp add: dropWhile_append2)
    next
      case False
      then obtain x where "x \<in> set cs" "is_space x" by blast
      then show ?thesis using c dropWhile_append1 [of x cs "\<lambda>x. \<not> is_space x" "[w]"] by simp
    qed
    have ih: "py_split (dropWhile (\<lambda>x. \<not> is_space x) (c # cs) @ [w])
          = py_split (dropWhile (\<lambda>x. \<not> is_space x) (c # cs))"
      using 1 Cons by simp
    show ?thesis
      by (simp add: py_split_step [OF d] py_split_step [OF Cons] tk dr ih del: takeWhile.simps dropWhile.simps)
  qed
qed

lemma py_split_append_spaces:
  "\<forall>x\<in>set ws. is_space x \<Longrightarrow> py_split (s @ ws) = py_split s"
proof (induction ws arbitrary: s)
  case Nil
  then show ?case by simp
next
  case (Cons w ws)
  have "py_split (s @ w # ws) = py_split (s @ [w])"
    using Cons.IH [of "s @ [w]"] Cons.prems by simp
  then show ?case using Cons.prems by (simp add: py_split_snoc_space)
qed

lemma py_split_dropWhile: "py_split (dropWhile is_space s) = py_split s"
  by (subst (1 2) py_split.simps) simp

lemma py_split_strip: "py_split (py_strip s) = py_split s"
proof -
  let ?d = "dropWhile is_space s"
  have "?d = rev (dropWhile is_space (rev ?d)) @ rev (takeWhile is_space (rev ?d))"
    using takeWhile_dropWhile_id [of is_space "rev ?d"]
    by (metis rev_append rev_rev_ident)
  moreover have "\<forall>x\<in>set (rev (takeWhile is_space (rev ?d))). is_space x"
    by (auto dest: set_takeWhileD)
  ultimately have "py_split ?d = py_split (rev (dropWhile is_space (rev ?d)))"
    using py_split_append_spaces by metis
  then show ?thesis
    by (simp add: py_strip_def py_split_dropWhile)
qed

text \<open>\<^verbatim>\<open>str.strip()\<close> removes a margin of whitespace on each side and leaves no
  whitespace at either end.\<close>

lemma py_strip_decomp:
  "s = takeWhile is_space s @ py_strip s @ rev (takeWhile is_space (rev (dropWhile is_space s)))"
proof -
  let ?d = "dropWhile is_space s"
  have "rev (takeWhile is_space (rev ?d) @ dropWhile is_space (rev ?d)) = rev (rev ?d)"
    by (simp only: takeWhile_dropWhile_id)
  then have "rev (dropWhile is_space (rev ?d)) @ rev (takeWhile is_space (rev ?d)) = ?d"
    by (simp only: rev_append rev_rev_ident)
  then have "?d = py_strip s @ rev (takeWhile is_space (rev ?d))"
    by (simp only: py_strip_def)
  moreover have "s = takeWhile is_space s @ ?d" by simp
  ultimately show ?thesis by simp
qed

lemma py_strip_margins:
  "list_all is_space (takeWhile is_space s)"
  "list_all is_space (rev (takeWhile is_space (rev (dropWhile is_space s))))"
  by (auto simp: list_all_iff dest: set_takeWhileD)

lemma py_strip_ends:
  assumes "py_strip s \<noteq> []"
  shows "\<not> is_space (hd (py_strip s)) \<and> \<not> is_space (last (py_strip s))"
proof -
  let ?d = "dropWhile is_space s"
  let ?e = "dropWhile is_space (rev ?d)"
  have e: "?e \<noteq> []" using assms by (simp add: py_strip_def)
  then have "\<not> is_space (hd ?e)" by (rule hd_dropWhile)
  then have l: "\<not> is_space (last (py_strip s))"
    using e by (simp add: py_strip_def last_rev)
  have d: "?d \<noteq> []"
  proof
    assume "?d = []"
    then have "?e = []" by (simp only: rev.simps dropWhile.simps)
    with e show False by (simp only: not_False_eq_True simp_thms)
  qed
  then have hd: "\<not> is_space (hd ?d)" by (rule hd_dropWhile)
  have "?d = py_strip s @ rev (takeWhile is_space (rev ?d))"
    using py_strip_decomp [of s] takeWhile_dropWhile_id [of is_space s]
    by (metis same_append_eq)
  then have "hd ?d = hd (py_strip s)"
    using assms by (metis hd_append2)
  with hd l show ?thesis by simp
qed

lemma sublist_mid: "sublist x y \<Longrightarrow> sublist x (p @ y @ q)"
proof -
  assume "sublist x y"
  then obtain ps ss where "y = ps @ x @ ss"
    unfolding sublist_def by blast
  then have "p @ y @ q = (p @ ps) @ x @ (ss @ q)" by simp
  then show ?thesis unfolding sublist_def by blast
qed

lemma sublist_join: "x \<in> set xs \<Longrightarrow> sublist x (join sep xs)"
proof (induction sep xs rule: join.induct)
  case (1 sep)
  then show ?case by simp
next
  case (2 sep y)
  then show ?case by simp
next
  case (3 sep a b bs)
  show ?case
  proof (cases "x = a")
    case True
    then show ?thesis by simp
  next
    case False
    with 3 have "sublist x (join sep (b # bs))" by simp
    then have "sublist x ((a @ sep) @ join sep (b # bs) @ [])"
      by (rule sublist_mid)
    then show ?thesis by simp
  qed
qed

subsection \<open>The name pattern\<close>

lemma valid_pattern_iff:
  "VALID_IFACE_PATTERN_match s \<longleftrightarrow>
     (s \<noteq> [] \<and> list_all in_class s) \<or> (\<exists>p. p \<noteq> [] \<and> list_all in_class p \<and> s = p @ [10])"
proof
  assume "VALID_IFACE_PATTERN_match s"
  then obtain n where n: "1 \<le> n" "n \<le> length s" "list_all in_class (take n s)" "at_dollar (drop n s)"
    by (auto simp: VALID_IFACE_PATTERN_match_def list_ex_iff)
  from n(4) consider "drop n s = []" | "drop n s = [10]"
    by (auto simp: at_dollar_def)
  then show "(s \<noteq> [] \<and> list_all in_class s) \<or> (\<exists>p. p \<noteq> [] \<and> list_all in_class p \<and> s = p @ [10])"
  proof cases
    case 1
    then have "take n s = s" using n(2) by simp
    with n show ?thesis by auto
  next
    case 2
    then have "s = take n s @ [10]"
      by (metis append_take_drop_id)
    moreover have "take n s \<noteq> []" using n by auto
    ultimately show ?thesis using n(3) by blast
  qed
next
  assume "(s \<noteq> [] \<and> list_all in_class s) \<or> (\<exists>p. p \<noteq> [] \<and> list_all in_class p \<and> s = p @ [10])"
  then show "VALID_IFACE_PATTERN_match s"
  proof
    assume a: "s \<noteq> [] \<and> list_all in_class s"
    then have "length s \<in> set [1..<Suc (length s)]"
      by (cases s) auto
    with a show ?thesis
      unfolding VALID_IFACE_PATTERN_match_def list_ex_iff
      by (intro bexI [of _ "length s"]) (auto simp: at_dollar_def)
  next
    assume "\<exists>p. p \<noteq> [] \<and> list_all in_class p \<and> s = p @ [10]"
    then obtain p where p: "p \<noteq> []" "list_all in_class p" "s = p @ [10]" by blast
    then have "length p \<in> set [1..<Suc (length s)]"
      by (cases p) auto
    with p show ?thesis
      unfolding VALID_IFACE_PATTERN_match_def list_ex_iff
      by (intro bexI [of _ "length p"]) (auto simp: at_dollar_def)
  qed
qed

subsection \<open>Probe, refresh and command construction\<close>

lemma snd_get_active_ifaces: "snd (get_active_ifaces E s) = request (Run probe_argv) s"
  by (simp add: get_active_ifaces_def Let_def split: sum.splits exn.splits)

lemma get_active_ifaces_state:
  "get_active_ifaces E s = (r, s1) \<Longrightarrow> s1 = request (Run probe_argv) s"
  using snd_get_active_ifaces [of E s] by simp

lemma finite_get_active_ifaces:
  "get_active_ifaces E s = (Inr active, s1) \<Longrightarrow> finite active"
  by (auto simp: get_active_ifaces_def Let_def split: sum.splits exn.splits if_splits)

lemma probe_not_transition: "\<not> is_transition_cmd (Run probe_argv)"
  by (simp add: is_transition_cmd_def probe_argv_def ascii_def)

lemma effects_refresh: "effects (snd (refresh E s)) = effects s @ [Run probe_argv]"
proof (cases "get_active_ifaces E s")
  case (Pair r s1)
  then have "s1 = request (Run probe_argv) s" by (rule get_active_ifaces_state)
  with Pair show ?thesis
    by (cases r) (simp_all add: refresh_def request_def)
qed


lemma wg_quick_cmd_state:
  "wg_quick_cmd E p up s = (cmd, s2) \<Longrightarrow> s2 = request Which (request Geteuid s)"
  by (auto simp: wg_quick_cmd_def Let_def split: option.splits if_splits)




text \<open>The example environments, evaluated.\<close>

lemma probe_home:
  "get_active_ifaces (example_env f b (\<lambda>t. exited 0 (ascii ''home'' @ [10]) []) q) s
     = (Inr {ascii ''home''}, request (Run probe_argv) s)"
  by (simp add: get_active_ifaces_def example_env_def exited_def Let_def py_strip_def
      py_split.simps is_space_def ascii_def)

lemma probe_none:
  "get_active_ifaces (example_env f b (\<lambda>t. exited 0 [] []) q) s
     = (Inr {}, request (Run probe_argv) s)"
  by (simp add: get_active_ifaces_def example_env_def exited_def Let_def py_strip_def
      py_split.simps)

lemma example_cmd:
  "wg_quick_cmd (example_env f b pr q) p up s =
     ([ascii ''/usr/bin/pkexec'', ascii ''wg-quick'', if up then ascii ''up'' else ascii ''down'', p],
      request Which (request Geteuid s))"
  by (simp add: wg_quick_cmd_def example_env_def Let_def ascii_def)

lemma example_conf_path:
  "conf_path (example_env f b pr q) name = ascii ''/opt/ww/'' @ name @ ascii ''.conf''"
  by (simp add: conf_path_def example_env_def)

subsection \<open>Scanning\<close>

lemma length_conf: "length (ascii ''.conf'') = 5"
  by (simp add: ascii_def)

lemma glob_match_suffix: "glob_match n \<longleftrightarrow> suffix (ascii ''.conf'') n"
proof
  assume "glob_match n"
  then have "n = take (length n - 5) n @ ascii ''.conf''"
    unfolding glob_match_def by (metis append_take_drop_id)
  then show "suffix (ascii ''.conf'') n"
    unfolding suffix_def by blast
next
  assume "suffix (ascii ''.conf'') n"
  then obtain zs where "n = zs @ ascii ''.conf''"
    unfolding suffix_def by blast
  then show "glob_match n"
    unfolding glob_match_def by (simp add: length_conf)
qed

lemma names_add_cards:
  "map card_name (cards_layout (add_cards ps s)) =
     map card_name (cards_layout s) @
     map stem (filter (\<lambda>p. VALID_IFACE_PATTERN_match (stem p)) ps)"
  by (induction ps arbitrary: s) (simp_all add: Let_def IfaceCard_def)

lemma names_load_configs:
  "map card_name (cards_layout (load_configs E s)) =
     map stem (filter (\<lambda>p. VALID_IFACE_PATTERN_match (stem p))
                 (sort (filter glob_match (listing E (clock s)))))"
  by (simp add: load_configs_def sorted_glob_def names_add_cards request_def)

lemma effects_add_cards: "effects (add_cards ps s) = effects s"
  by (induction ps arbitrary: s) (simp_all add: Let_def)

lemma effects_load_configs: "effects (load_configs E s) = effects s @ [Glob]"
  by (simp add: load_configs_def sorted_glob_def effects_add_cards request_def)

lemma check_invalid_configs_eq:
  "check_invalid_configs E s =
     (filter (\<lambda>p. \<not> VALID_IFACE_PATTERN_match (stem p)) (sort (filter glob_match (listing E (clock s)))),
      request Glob s)"
  by (simp add: check_invalid_configs_def sorted_glob_def)

lemma stem_examples:
  "stem (ascii ''home.conf'') = ascii ''home''"
  "stem (ascii ''wg0.conf'') = ascii ''wg0''"
  "stem (ascii ''office vpn.conf'') = ascii ''office vpn''"
  by (simp_all add: stem_def rfind_def ascii_def)

lemma pattern_examples:
  "VALID_IFACE_PATTERN_match (ascii ''home'')"
  "VALID_IFACE_PATTERN_match (ascii ''wg0'')"
  "\<not> VALID_IFACE_PATTERN_match (ascii ''office vpn'')"
  by (simp_all add: VALID_IFACE_PATTERN_match_def ascii_def in_class_def at_dollar_def upt_rec)

lemma example_dir_sorted:
  "sort (filter glob_match [ascii ''wg0.conf'', ascii ''office vpn.conf'', ascii ''home.conf''])
     = [ascii ''home.conf'', ascii ''office vpn.conf'', ascii ''wg0.conf'']"
  by (simp add: glob_match_def ascii_def)

lemma example_listing: "listing (example_env f b pr q) t = f t"
  by (simp add: example_env_def)

lemma example_dir_invalid:
  "fst (check_invalid_configs
     (example_env (\<lambda>t. [ascii ''wg0.conf'', ascii ''office vpn.conf'', ascii ''home.conf'']) b pr q) s)
   = [ascii ''office vpn.conf'']"
  unfolding check_invalid_configs_eq example_listing example_dir_sorted
  by (simp add: stem_examples pattern_examples)

lemma example_dir_cards:
  "map card_name (cards_layout (load_configs
     (example_env (\<lambda>t. [ascii ''wg0.conf'', ascii ''office vpn.conf'', ascii ''home.conf'']) b pr q) s))
   = [ascii ''home'', ascii ''wg0'']"
  unfolding names_load_configs example_listing example_dir_sorted
  by (simp add: stem_examples pattern_examples)

subsection \<open>The offer is fixed at startup\<close>

lemma same_offer_refl: "same_offer s s"
  by (simp add: same_offer_def)

lemma same_offer_trans: "same_offer s s' \<Longrightarrow> same_offer s' s'' \<Longrightarrow> same_offer s s''"
  by (simp add: same_offer_def)

lemma same_offer_request: "e \<noteq> Glob \<Longrightarrow> same_offer s (request e s)"
  by (simp add: same_offer_def request_def offered_def scans_def)

lemma same_offer_message_box: "same_offer s (message_box k t m s)"
  by (simp add: same_offer_def message_box_def offered_def scans_def)

lemma same_offer_status: "same_offer s (s\<lparr>status_label := x\<rparr>)"
  by (simp add: same_offer_def offered_def scans_def)

lemma names_set_state_update:
  "map card_name (l[i := set_state b (l ! i)]) = map card_name l"
proof (cases "i < length l")
  case True
  have "card_name (set_state b (l ! i)) = card_name (l ! i)"
    by (simp add: set_state_def)
  then have "map card_name (l[i := set_state b (l ! i)]) = (map card_name l)[i := map card_name l ! i]"
    using True by (simp add: map_update)
  then show ?thesis by simp
next
  case False
  then have "length l \<le> i" by simp
  then have "l[i := set_state b (l ! i)] = l" by (rule list_update_beyond)
  then show ?thesis by simp
qed

lemma names_set_states: "map card_name (set_states active d lay) = map card_name lay"
  unfolding set_states_def
proof (induction d arbitrary: lay)
  case Nil
  then show ?case by simp
next
  case (Cons a d)
  obtain name i where a: "a = (name, i)" by (cases a)
  show ?case
    by (simp add: a Cons.IH names_set_state_update)
qed

lemma same_offer_refresh: "same_offer s (snd (refresh E s))"
proof (cases "get_active_ifaces E s")
  case (Pair r s1)
  then have s1: "s1 = request (Run probe_argv) s" by (rule get_active_ifaces_state)
  show ?thesis
  proof (cases r)
    case (Inl e)
    with Pair s1 show ?thesis
      by (simp add: refresh_def same_offer_request)
  next
    case (Inr active)
    with Pair s1 show ?thesis
      by (simp add: refresh_def same_offer_def offered_def scans_def names_set_states request_def)
  qed
qed

lemma same_offer_run_wg_quick: "same_offer s (snd (run_wg_quick E name up s))"
proof -
  let ?p = "conf_path E name"
  let ?s1 = "request (Exists ?p) s"
  obtain cmd s2 where c: "wg_quick_cmd E ?p up ?s1 = (cmd, s2)"
    by (cases "wg_quick_cmd E ?p up ?s1")
  then have s2: "s2 = request Which (request Geteuid ?s1)"
    by (rule wg_quick_cmd_state)
  let ?s3 = "s2\<lparr>status_label := ascii ''Running: '' @ join (ascii '' '') cmd\<rparr>"
  let ?s4 = "request (Run cmd) ?s3"
  have 1: "same_offer s ?s1" by (simp add: same_offer_request)
  have "same_offer ?s1 s2" unfolding s2
    by (rule same_offer_trans [OF same_offer_request same_offer_request]) simp_all
  with 1 have 2: "same_offer s s2" by (rule same_offer_trans)
  have "same_offer s2 ?s4"
    by (rule same_offer_trans [OF same_offer_status same_offer_request]) simp
  with 2 have 4: "same_offer s ?s4" by (rule same_offer_trans)
  have box: "same_offer s (message_box k t m ?s4)" for k t m
    using 4 same_offer_message_box by (rule same_offer_trans)
  have boxr: "same_offer s (snd (refresh E (message_box k t m ?s4)))" for k t m
    using box same_offer_refresh by (rule same_offer_trans)
  have r4: "same_offer s (snd (refresh E ?s4))"
    using 4 same_offer_refresh by (rule same_offer_trans)
  have miss: "same_offer s (message_box k t m ?s1)" for k t m
    using 1 same_offer_message_box by (rule same_offer_trans)
  show ?thesis
    unfolding run_wg_quick_def Let_def c
    using miss box boxr r4 by (simp split: sum.splits)
qed

lemma same_offer_bring_up: "same_offer s (snd (bring_up E name s))"
proof (cases "get_active_ifaces E s")
  case (Pair r s1)
  then have s1: "s1 = request (Run probe_argv) s" by (rule get_active_ifaces_state)
  have 1: "same_offer s s1" unfolding s1 by (simp add: same_offer_request)
  have 2: "same_offer s (message_box k t m s1)" for k t m
    using 1 same_offer_message_box by (rule same_offer_trans)
  have 3: "same_offer s (snd (run_wg_quick E name True s1))"
    using 1 same_offer_run_wg_quick by (rule same_offer_trans)
  show ?thesis
    using Pair 1 2 3 by (cases r) (simp_all add: bring_up_def)
qed

lemma same_offer_bring_down: "same_offer s (snd (bring_down E name s))"
proof (cases "get_active_ifaces E s")
  case (Pair r s1)
  then have s1: "s1 = request (Run probe_argv) s" by (rule get_active_ifaces_state)
  have 1: "same_offer s s1" unfolding s1 by (simp add: same_offer_request)
  have 3: "same_offer s (snd (run_wg_quick E name False s1))"
    using 1 same_offer_run_wg_quick by (rule same_offer_trans)
  show ?thesis
    using Pair 1 3 by (cases r) (simp_all add: bring_down_def)
qed

lemma same_offer_dispatch: "same_offer s (snd (dispatch E ev s))"
  by (cases ev)
    (simp_all add: dispatch_def same_offer_refresh same_offer_bring_up same_offer_bring_down
      same_offer_refl)

lemma same_offer_run_events: "same_offer s (snd (run_events E evs s))"
proof (induction evs arbitrary: s)
  case Nil
  then show ?case by (simp add: same_offer_refl)
next
  case (Cons ev evs)
  obtain r s1 where d: "dispatch E ev s = (r, s1)" by (cases "dispatch E ev s")
  have 1: "same_offer s s1" using same_offer_dispatch [of s E ev] d by simp
  show ?case
  proof (cases r)
    case (Inl e)
    with d 1 show ?thesis by simp
  next
    case (Inr u)
    have "same_offer s1 (snd (run_events E evs s1))" by (rule Cons.IH)
    with 1 have "same_offer s (snd (run_events E evs s1))" by (rule same_offer_trans)
    with d Inr show ?thesis by simp
  qed
qed

lemma same_offer_main: "same_offer (snd (init E)) (snd (main E evs))"
proof (cases "init E")
  case (Pair r s)
  show ?thesis
    using Pair same_offer_run_events [of s E evs]
    by (cases r) (simp_all add: main_def same_offer_refl)
qed

lemma init_invalid:
  "fst (check_invalid_configs E initial) \<noteq> [] \<Longrightarrow>
     init E = refresh E (message_box Critical (ascii ''Invalid Config Filenames'')
                (invalid_msg (fst (check_invalid_configs E initial))) (request Glob initial))"
  by (simp add: init_def check_invalid_configs_eq)

lemma init_valid:
  "fst (check_invalid_configs E initial) = [] \<Longrightarrow>
     init E = refresh E (load_configs E (request Glob initial))"
  by (simp add: init_def check_invalid_configs_eq)

lemma same_offerD:
  "same_offer s s' \<Longrightarrow> offered s' = offered s \<and> cards s' = cards s \<and> scans s' = scans s"
  by (simp add: same_offer_def)

lemma offered_init:
  "offered (snd (init E)) =
     (if fst (check_invalid_configs E initial) \<noteq> [] then []
      else map stem (filter (\<lambda>p. VALID_IFACE_PATTERN_match (stem p))
                       (sort (filter glob_match (listing E 1)))))"
proof (cases "fst (check_invalid_configs E initial) = []")
  case True
  have "offered (snd (init E)) = offered (load_configs E (request Glob initial))"
    using same_offerD [OF same_offer_refresh] by (simp add: init_valid [OF True])
  also have "\<dots> = map stem (filter (\<lambda>p. VALID_IFACE_PATTERN_match (stem p))
                       (sort (filter glob_match (listing E 1))))"
    unfolding offered_def names_load_configs by (simp add: request_def initial_def)
  finally show ?thesis using True by simp
next
  case False
  have "offered (snd (init E)) = offered (message_box Critical (ascii ''Invalid Config Filenames'')
                (invalid_msg (fst (check_invalid_configs E initial))) (request Glob initial))"
    using same_offerD [OF same_offer_refresh] by (simp add: init_invalid [OF False])
  also have "\<dots> = []"
    by (simp add: offered_def message_box_def request_def initial_def)
  finally show ?thesis using False by simp
qed

lemma scans_init:
  "scans (snd (init E)) = (if fst (check_invalid_configs E initial) \<noteq> [] then 1 else 2)"
proof (cases "fst (check_invalid_configs E initial) = []")
  case True
  have "scans (snd (init E)) = scans (load_configs E (request Glob initial))"
    using same_offerD [OF same_offer_refresh] by (simp add: init_valid [OF True])
  also have "\<dots> = 2"
    by (simp add: scans_def effects_load_configs request_def initial_def)
  finally show ?thesis using True by simp
next
  case False
  have "scans (snd (init E)) = scans (message_box Critical (ascii ''Invalid Config Filenames'')
                (invalid_msg (fst (check_invalid_configs E initial))) (request Glob initial))"
    using same_offerD [OF same_offer_refresh] by (simp add: init_invalid [OF False])
  also have "\<dots> = 1"
    by (simp add: scans_def message_box_def request_def initial_def)
  finally show ?thesis using False by simp
qed

lemma transitions_refresh:
  "filter is_transition_cmd (effects (snd (refresh E s))) = filter is_transition_cmd (effects s)"
  by (simp add: effects_refresh probe_not_transition)

lemma dispatch_no_cards:
  assumes "cards_layout s = []"
  shows "cards_layout (snd (dispatch E ev s)) = [] \<and>
         filter is_transition_cmd (effects (snd (dispatch E ev s))) = filter is_transition_cmd (effects s)"
proof (cases ev)
  case Timeout
  have "offered (snd (refresh E s)) = offered s"
    using same_offerD [OF same_offer_refresh] by blast
  then have "cards_layout (snd (refresh E s)) = []"
    using assms by (simp add: offered_def)
  with Timeout show ?thesis
    by (simp add: dispatch_def transitions_refresh)
next
  case (UpClicked i)
  with assms show ?thesis by (simp add: dispatch_def)
next
  case (DownClicked i)
  with assms show ?thesis by (simp add: dispatch_def)
qed

lemma run_events_no_cards:
  "cards_layout s = [] \<Longrightarrow>
     cards_layout (snd (run_events E evs s)) = [] \<and>
     filter is_transition_cmd (effects (snd (run_events E evs s))) = filter is_transition_cmd (effects s)"
proof (induction evs arbitrary: s)
  case Nil
  then show ?case by simp
next
  case (Cons ev evs)
  obtain r s1 where d: "dispatch E ev s = (r, s1)" by (cases "dispatch E ev s")
  have 1: "cards_layout s1 = [] \<and> filter is_transition_cmd (effects s1) = filter is_transition_cmd (effects s)"
    using dispatch_no_cards [OF Cons.prems, of E ev] d by simp
  show ?case
  proof (cases r)
    case (Inl e)
    with d 1 show ?thesis by simp
  next
    case (Inr u)
    have "cards_layout (snd (run_events E evs s1)) = [] \<and>
      filter is_transition_cmd (effects (snd (run_events E evs s1))) = filter is_transition_cmd (effects s1)"
      using 1 by (intro Cons.IH) simp
    with d Inr 1 show ?thesis by simp
  qed
qed

subsection \<open>The dictionary of cards\<close>
















lemma one_card_sorted:
  "sort (filter glob_match [ascii ''home.conf'']) = [ascii ''home.conf'']"
  by (simp add: glob_match_def ascii_def)

subsection \<open>The claims\<close>

text \<open>
  C1 (conflict). When the probe made by the bring-up request returns a non-empty active
  set without the target, the request ends with the warning box \<^verbatim>\<open>Disconnect first\<close>;
  its message holds every active name; the only things done are the probe and the box, so
  the up/down tool is not invoked.
\<close>

theorem bring_up_conflict:
  assumes "get_active_ifaces E s = (Inr active, s1)" and "active \<noteq> {}" and "name \<notin> active"
  shows "bring_up E name s =
           (Inr (), message_box Warning (ascii ''Disconnect first'') (conflict_msg active name)
                      (request (Run probe_argv) s)) \<and>
         (\<forall>a\<in>active. sublist a (conflict_msg active name)) \<and>
         effects (snd (bring_up E name s)) =
           effects s @ [Run probe_argv,
                        MessageBox Warning (ascii ''Disconnect first'') (conflict_msg active name)] \<and>
         filter is_transition_cmd (effects (snd (bring_up E name s))) =
           filter is_transition_cmd (effects s)"
proof -
  have s1: "s1 = request (Run probe_argv) s"
    using assms(1) by (rule get_active_ifaces_state)
  have up: "bring_up E name s =
           (Inr (), message_box Warning (ascii ''Disconnect first'') (conflict_msg active name)
                      (request (Run probe_argv) s))"
    using assms s1 by (simp add: bring_up_def)
  have fin: "finite active" using assms(1) by (rule finite_get_active_ifaces)
  have names: "\<forall>a\<in>active. sublist a (conflict_msg active name)"
  proof
    fix a assume "a \<in> active"
    with fin have "a \<in> set (sorted_list_of_set active)" by simp
    then have "sublist a (join (ascii '', '') (sorted_list_of_set active))"
      by (rule sublist_join)
    then show "sublist a (conflict_msg active name)"
      unfolding conflict_msg_def by (rule sublist_mid)
  qed
  have eff: "effects (snd (bring_up E name s)) =
           effects s @ [Run probe_argv,
                        MessageBox Warning (ascii ''Disconnect first'') (conflict_msg active name)]"
    by (simp add: up message_box_def request_def)
  have "filter is_transition_cmd (effects (snd (bring_up E name s))) =
           filter is_transition_cmd (effects s)"
    by (simp add: eff probe_not_transition) (simp add: is_transition_cmd_def)
  with up names eff show ?thesis by blast
qed

theorem bring_up_conflict_witness:
  "effects (snd (bring_up
       (example_env (\<lambda>t. []) True (\<lambda>t. exited 0 (ascii ''home'' @ [10]) []) (exited 0 [] []))
       (ascii ''office'') initial)) =
     [Run probe_argv,
      MessageBox Warning (ascii ''Disconnect first'')
        (ascii ''Another WireGuard interface is active: home.'' @ [10] @
         ascii ''Disconnect it before bringing up office.'')] \<and>
   sublist (ascii ''home'') (conflict_msg {ascii ''home''} (ascii ''office''))"
proof -
  have ne: "{ascii ''home''} \<noteq> ({} :: pystr set)" by simp
  have ni: "ascii ''office'' \<notin> {ascii ''home''}" by (simp add: ascii_def)
  have msg: "conflict_msg {ascii ''home''} (ascii ''office'') =
      ascii ''Another WireGuard interface is active: home.'' @ [10] @
         ascii ''Disconnect it before bringing up office.''"
    by (simp add: conflict_msg_def ascii_def)
  note th = bring_up_conflict [where E = "example_env (\<lambda>t. []) True
       (\<lambda>t. exited 0 (ascii ''home'' @ [10]) []) (exited 0 [] [])" and s = initial
       and name = "ascii ''office''", OF probe_home ne ni]
  from th have "effects (snd (bring_up
       (example_env (\<lambda>t. []) True (\<lambda>t. exited 0 (ascii ''home'' @ [10]) []) (exited 0 [] []))
       (ascii ''office'') initial)) =
     effects initial @ [Run probe_argv,
      MessageBox Warning (ascii ''Disconnect first'')
        (conflict_msg {ascii ''home''} (ascii ''office''))]"
    by blast
  moreover have "effects initial = []" by (simp add: initial_def)
  moreover from th have "sublist (ascii ''home'') (conflict_msg {ascii ''home''} (ascii ''office''))"
    by blast
  ultimately show ?thesis
    by (simp only: msg append_Nil simp_thms)
qed




text \<open>
  C3 (name validator). The claim is that the validator accepts a string exactly when it
  is non-empty and all its characters are in the class. The pattern ends with \<^verbatim>\<open>$\<close>,
  which in Python also holds before a final newline: the name \<^verbatim>\<open>wg0\<close> followed by a
  newline is accepted although the newline is not in the class, and the file of that
  name with the extension \<^verbatim>\<open>.conf\<close> is not reported as invalid.
\<close>

theorem validator_accepts_trailing_newline:
  "VALID_IFACE_PATTERN_match (ascii ''wg0'' @ [10]) \<and>
   \<not> list_all in_class (ascii ''wg0'' @ [10]) \<and>
   stem (ascii ''wg0'' @ [10] @ ascii ''.conf'') = ascii ''wg0'' @ [10] \<and>
   fst (check_invalid_configs
          (example_env (\<lambda>t. [ascii ''wg0'' @ [10] @ ascii ''.conf'']) True
             (\<lambda>t. exited 0 [] []) (exited 0 [] [])) initial) = []"
proof -
  have a: "VALID_IFACE_PATTERN_match (ascii ''wg0'' @ [10])"
    by (simp add: ascii_def VALID_IFACE_PATTERN_match_def in_class_def at_dollar_def upt_rec)
  have b: "\<not> list_all in_class (ascii ''wg0'' @ [10])"
    by (simp add: ascii_def in_class_def)
  have c: "stem (ascii ''wg0'' @ [10] @ ascii ''.conf'') = ascii ''wg0'' @ [10]"
    by (simp add: stem_def rfind_def ascii_def)
  have d: "glob_match (ascii ''wg0'' @ [10] @ ascii ''.conf'')"
    by (simp add: glob_match_def ascii_def)
  show ?thesis
    using a b c d
    by (simp add: check_invalid_configs_def sorted_glob_def example_env_def initial_def)
qed

text \<open>
  C4 (all-or-nothing gate). When the scan at startup reports an invalid file name, no
  card is ever made: after startup and any sequence of timer and button events the layout
  and the dictionary of cards are empty, a click on any position delivers nothing, and the
  up/down tool has never been invoked.
\<close>

theorem invalid_names_gate:
  assumes "fst (check_invalid_configs E initial) \<noteq> []"
  shows "cards_layout (snd (main E evs)) = [] \<and>
         cards (snd (main E evs)) = [] \<and>
         filter is_transition_cmd (effects (snd (main E evs))) = [] \<and>
         (\<forall>i. dispatch E (UpClicked i) (snd (main E evs)) = (Inr (), snd (main E evs)) \<and>
              dispatch E (DownClicked i) (snd (main E evs)) = (Inr (), snd (main E evs)))"
proof -
  let ?s0 = "message_box Critical (ascii ''Invalid Config Filenames'')
                (invalid_msg (fst (check_invalid_configs E initial))) (request Glob initial)"
  have i: "init E = refresh E ?s0" using assms by (rule init_invalid)
  have o: "offered (snd (init E)) = []" using assms by (simp add: offered_init)
  then have l0: "cards_layout (snd (init E)) = []" by (simp add: offered_def)
  have "cards (snd (init E)) = cards ?s0"
    unfolding i using same_offerD [OF same_offer_refresh] by blast
  then have c0: "cards (snd (init E)) = []"
    by (simp add: message_box_def request_def initial_def)
  have "filter is_transition_cmd (effects (snd (init E))) = filter is_transition_cmd (effects ?s0)"
    unfolding i by (rule transitions_refresh)
  then have t0: "filter is_transition_cmd (effects (snd (init E))) = []"
    by (simp add: message_box_def request_def initial_def is_transition_cmd_def)
  have c: "cards (snd (main E evs)) = []"
    using same_offerD [OF same_offer_main [of E evs]] c0 by simp
  have lt: "cards_layout (snd (main E evs)) = [] \<and>
        filter is_transition_cmd (effects (snd (main E evs))) = []"
  proof (cases "init E")
    case (Pair r s)
    then have s: "cards_layout s = []" "filter is_transition_cmd (effects s) = []"
      using l0 t0 by simp_all
    show ?thesis
    proof (cases r)
      case (Inl e)
      with Pair s show ?thesis by (simp add: main_def)
    next
      case (Inr u)
      with Pair s run_events_no_cards [OF s(1), of E evs] show ?thesis
        by (simp add: main_def)
    qed
  qed
  then have "dispatch E (UpClicked i) (snd (main E evs)) = (Inr (), snd (main E evs)) \<and>
              dispatch E (DownClicked i) (snd (main E evs)) = (Inr (), snd (main E evs))" for i
    by (simp add: dispatch_def)
  with c lt show ?thesis by blast
qed

theorem invalid_names_gate_witness:
  "cards_layout (snd (main
      (example_env (\<lambda>t. [ascii ''wg0.conf'', ascii ''office vpn.conf'', ascii ''home.conf''])
         True (\<lambda>t. exited 0 [] []) (exited 0 [] []))
      [UpClicked 0, Timeout, DownClicked 1])) = [] \<and>
   filter is_transition_cmd (effects (snd (main
      (example_env (\<lambda>t. [ascii ''wg0.conf'', ascii ''office vpn.conf'', ascii ''home.conf''])
         True (\<lambda>t. exited 0 [] []) (exited 0 [] []))
      [UpClicked 0, Timeout, DownClicked 1]))) = []"
proof -
  let ?E = "example_env (\<lambda>t. [ascii ''wg0.conf'', ascii ''office vpn.conf'', ascii ''home.conf''])
         True (\<lambda>t. exited 0 [] []) (exited 0 [] [])"
  have "fst (check_invalid_configs ?E initial) \<noteq> []"
    by (simp add: example_dir_invalid)
  from invalid_names_gate [OF this, of "[UpClicked 0, Timeout, DownClicked 1]"]
  show ?thesis by blast
qed

text \<open>
  C5 (idempotent no-ops). A bring-up request whose target is in the probed active set,
  and a bring-down request whose target is not in it, return normally in the state left
  by the probe: nothing but the probe is run and no box is shown.
\<close>

theorem idempotent_no_op:
  assumes "get_active_ifaces E s = (Inr active, s1)"
  shows "(name \<in> active \<longrightarrow> bring_up E name s = (Inr (), request (Run probe_argv) s)) \<and>
         (name \<notin> active \<longrightarrow> bring_down E name s = (Inr (), request (Run probe_argv) s)) \<and>
         effects (request (Run probe_argv) s) = effects s @ [Run probe_argv] \<and>
         filter is_transition_cmd (effects (request (Run probe_argv) s)) =
           filter is_transition_cmd (effects s)"
proof -
  have s1: "s1 = request (Run probe_argv) s"
    using assms by (rule get_active_ifaces_state)
  have "name \<in> active \<Longrightarrow> bring_up E name s = (Inr (), request (Run probe_argv) s)"
    using assms s1 by (auto simp: bring_up_def)
  moreover have "name \<notin> active \<Longrightarrow> bring_down E name s = (Inr (), request (Run probe_argv) s)"
    using assms s1 by (simp add: bring_down_def)
  moreover have "effects (request (Run probe_argv) s) = effects s @ [Run probe_argv]"
    by (simp add: request_def)
  ultimately show ?thesis
    by (simp add: probe_not_transition)
qed

theorem idempotent_no_op_witness:
  "bring_up (example_env (\<lambda>t. []) True (\<lambda>t. exited 0 (ascii ''home'' @ [10]) []) (exited 0 [] []))
      (ascii ''home'') initial = (Inr (), request (Run probe_argv) initial) \<and>
   bring_down (example_env (\<lambda>t. []) True (\<lambda>t. exited 0 [] []) (exited 0 [] []))
      (ascii ''home'') initial = (Inr (), request (Run probe_argv) initial)"
  using idempotent_no_op [OF probe_home, of "ascii ''home''" "\<lambda>t. []" True "exited 0 [] []" initial]
    idempotent_no_op [OF probe_none, of "ascii ''home''" "\<lambda>t. []" True "exited 0 [] []" initial]
  by simp

text \<open>
  C6 (missing configuration). A request that passes admission (bring-up with nothing
  active, bring-down of an active target) and finds no file at the configuration path
  ends with the critical box \<^verbatim>\<open>Error\<close>, \<^verbatim>\<open>Config not found\<close> and the path; after the probe
  only the existence test is made, and the up/down tool is not invoked.
\<close>

theorem missing_config:
  assumes "get_active_ifaces E s = (Inr active, s1)"
    and "\<not> path_exists E (clock s1) (conf_path E name)"
  shows "(let s2 = message_box Critical (ascii ''Error'')
                     (ascii ''Config not found: '' @ conf_path E name)
                     (request (Exists (conf_path E name)) (request (Run probe_argv) s))
          in (active = {} \<longrightarrow> bring_up E name s = (Inr (), s2)) \<and>
             (name \<in> active \<longrightarrow> bring_down E name s = (Inr (), s2)) \<and>
             run_wg_quick E name up s1 = (Inr (), s2) \<and>
             effects s2 = effects s @ [Run probe_argv, Exists (conf_path E name),
               MessageBox Critical (ascii ''Error'')
                 (ascii ''Config not found: '' @ conf_path E name)] \<and>
             filter is_transition_cmd (effects s2) = filter is_transition_cmd (effects s))"
proof -
  define s2 where "s2 = message_box Critical (ascii ''Error'')
                     (ascii ''Config not found: '' @ conf_path E name)
                     (request (Exists (conf_path E name)) (request (Run probe_argv) s))"
  have s1: "s1 = request (Run probe_argv) s"
    using assms(1) by (rule get_active_ifaces_state)
  have run: "run_wg_quick E name up s1 = (Inr (), s2)" for up
    using assms(2) s1 by (simp add: run_wg_quick_def Let_def s2_def)
  have "active = {} \<Longrightarrow> bring_up E name s = (Inr (), s2)"
    using assms(1) run by (simp add: bring_up_def)
  moreover have "name \<in> active \<Longrightarrow> bring_down E name s = (Inr (), s2)"
    using assms(1) run by (simp add: bring_down_def)
  moreover have eff: "effects s2 = effects s @ [Run probe_argv, Exists (conf_path E name),
            MessageBox Critical (ascii ''Error'') (ascii ''Config not found: '' @ conf_path E name)]"
    by (simp add: s2_def message_box_def request_def)
  moreover have "filter is_transition_cmd (effects s2) = filter is_transition_cmd (effects s)"
    by (simp add: eff probe_not_transition) (simp add: is_transition_cmd_def)
  ultimately show ?thesis
    using run unfolding Let_def s2_def [symmetric] by blast
qed

theorem missing_config_witness:
  "bring_up (example_env (\<lambda>t. []) False (\<lambda>t. exited 0 [] []) (exited 0 [] []))
      (ascii ''ghost'') initial =
     (Inr (), message_box Critical (ascii ''Error'') (ascii ''Config not found: /opt/ww/ghost.conf'')
                (request (Exists (ascii ''/opt/ww/ghost.conf'')) (request (Run probe_argv) initial)))"
proof -
  let ?E = "example_env (\<lambda>t. []) False (\<lambda>t. exited 0 [] []) (exited 0 [] [])"
  have a: "\<not> path_exists ?E (clock (request (Run probe_argv) initial)) (conf_path ?E (ascii ''ghost''))"
    by (simp add: example_env_def)
  have p: "conf_path ?E (ascii ''ghost'') = ascii ''/opt/ww/ghost.conf''"
    by (simp add: example_conf_path ascii_def)
  note th = missing_config [where E = ?E and s = initial and name = "ascii ''ghost''"
      and up = True, OF probe_none a]
  then have "bring_up ?E (ascii ''ghost'') initial =
     (Inr (), message_box Critical (ascii ''Error'')
                (ascii ''Config not found: '' @ conf_path ?E (ascii ''ghost''))
                (request (Exists (conf_path ?E (ascii ''ghost''))) (request (Run probe_argv) initial)))"
    by (simp add: Let_def)
  then show ?thesis
    unfolding p by (simp add: ascii_def)
qed

text \<open>
  C7 (probe). The probe returns the empty set when the tool is not found
  (\<^verbatim>\<open>FileNotFoundError\<close>) and when it exits with a non-zero code; when it exits with code
  zero the probe returns exactly the whitespace-separated tokens of its standard output,
  and the empty output has no tokens.
\<close>

theorem probe_result:
  "(subprocess_run E (clock s) probe_argv = Inl (FileNotFoundError m) \<longrightarrow>
      fst (get_active_ifaces E s) = Inr {}) \<and>
   (subprocess_run E (clock s) probe_argv = Inr proc \<and> returncode proc \<noteq> 0 \<longrightarrow>
      fst (get_active_ifaces E s) = Inr {}) \<and>
   (subprocess_run E (clock s) probe_argv = Inr proc \<and> returncode proc = 0 \<longrightarrow>
      fst (get_active_ifaces E s) = Inr (ws_tokens (stdout proc))) \<and>
   ws_tokens [] = {}"
proof -
  have "set (py_split (py_strip (stdout proc))) = ws_tokens (stdout proc)"
    by (simp add: py_split_strip set_py_split)
  moreover have "ws_tokens [] = {}"
    by (rule ws_tokens_all_space) simp
  ultimately show ?thesis
    by (simp add: get_active_ifaces_def Let_def)
qed

theorem probe_result_witness:
  "fst (get_active_ifaces
         (example_env (\<lambda>t. []) True (\<lambda>t. Inl (FileNotFoundError (ascii ''wg''))) (exited 0 [] []))
         initial) = Inr {} \<and>
   fst (get_active_ifaces
         (example_env (\<lambda>t. []) True (\<lambda>t. exited 1 (ascii ''home'') []) (exited 0 [] []))
         initial) = Inr {} \<and>
   fst (get_active_ifaces
         (example_env (\<lambda>t. []) True (\<lambda>t. exited 0 (ascii ''home'' @ [10]) []) (exited 0 [] []))
         initial) = Inr (ws_tokens (ascii ''home'' @ [10])) \<and>
   ws_tokens (ascii ''home'' @ [10]) = {ascii ''home''}"
proof -
  let ?E1 = "example_env (\<lambda>t. []) True (\<lambda>t. Inl (FileNotFoundError (ascii ''wg''))) (exited 0 [] [])"
  let ?E2 = "example_env (\<lambda>t. []) True (\<lambda>t. exited 1 (ascii ''home'') []) (exited 0 [] [])"
  let ?E3 = "example_env (\<lambda>t. []) True (\<lambda>t. exited 0 (ascii ''home'' @ [10]) []) (exited 0 [] [])"
  have 1: "subprocess_run ?E1 (clock initial) probe_argv = Inl (FileNotFoundError (ascii ''wg''))"
    by (simp add: example_env_def)
  have 2: "subprocess_run ?E2 (clock initial) probe_argv = Inr (CompletedProcess 1 (ascii ''home'') [])
           \<and> returncode (CompletedProcess 1 (ascii ''home'') []) \<noteq> 0"
    by (simp add: example_env_def exited_def)
  have 3: "subprocess_run ?E3 (clock initial) probe_argv = Inr (CompletedProcess 0 (ascii ''home'' @ [10]) [])
           \<and> returncode (CompletedProcess 0 (ascii ''home'' @ [10]) []) = 0"
    by (simp add: example_env_def exited_def)
  have a: "fst (get_active_ifaces ?E1 initial) = Inr {}"
    using probe_result [of ?E1 initial "ascii ''wg''"] 1 by blast
  have b: "fst (get_active_ifaces ?E2 initial) = Inr {}"
    using probe_result [of ?E2 initial _ "CompletedProcess 1 (ascii ''home'') []"] 2 by blast
  have c: "fst (get_active_ifaces ?E3 initial) = Inr (ws_tokens (ascii ''home'' @ [10]))"
    using probe_result [of ?E3 initial _ "CompletedProcess 0 (ascii ''home'' @ [10]) []"] 3
    by simp
  have "fst (get_active_ifaces ?E3 initial) = Inr {ascii ''home''}"
    by (simp add: probe_home)
  with c have d: "ws_tokens (ascii ''home'' @ [10]) = {ascii ''home''}" by simp
  from a b c d show ?thesis by blast
qed

text \<open>
  C8 (directory scan). Both scanning functions go through the entries whose name ends
  with \<^verbatim>\<open>.conf\<close>, in the order of their file names; \<^verbatim>\<open>check_invalid_configs\<close>
  returns the file names whose stem fails the pattern, and \<^verbatim>\<open>load_configs\<close> makes one
  card per remaining file, named by its stem. For the directory of the example the cards
  are \<^verbatim>\<open>home\<close>, \<^verbatim>\<open>wg0\<close> and the invalid list is \<^verbatim>\<open>office vpn.conf\<close>.
\<close>

theorem directory_scan:
  "(let files = sort (filter glob_match (listing E (clock s))) in
      fst (check_invalid_configs E s) =
        filter (\<lambda>p. \<not> VALID_IFACE_PATTERN_match (stem p)) files \<and>
      map card_name (cards_layout (load_configs E s)) =
        map stem (filter (\<lambda>p. VALID_IFACE_PATTERN_match (stem p)) files) \<and>
      sorted files \<and>
      set files = {n \<in> set (listing E (clock s)). suffix (ascii ''.conf'') n} \<and>
      (distinct (listing E (clock s)) \<longrightarrow> distinct files)) \<and>
   (let dir = example_env (\<lambda>t. [ascii ''wg0.conf'', ascii ''office vpn.conf'', ascii ''home.conf''])
                True (\<lambda>t. exited 0 [] []) (exited 0 [] []) in
      map card_name (cards_layout (load_configs dir initial)) = [ascii ''home'', ascii ''wg0''] \<and>
      fst (check_invalid_configs dir initial) = [ascii ''office vpn.conf''])"
proof -
  have gen1: "fst (check_invalid_configs E s) =
        filter (\<lambda>p. \<not> VALID_IFACE_PATTERN_match (stem p)) (sort (filter glob_match (listing E (clock s))))"
    by (simp add: check_invalid_configs_eq)
  have gen2: "set (sort (filter glob_match (listing E (clock s)))) =
        {n \<in> set (listing E (clock s)). suffix (ascii ''.conf'') n}"
    by (auto simp: glob_match_suffix)
  show ?thesis
    unfolding Let_def using gen1 gen2 names_load_configs [of E s]
    by (simp add: example_dir_invalid example_dir_cards)
qed

theorem directory_scan_witness:
  "fst (check_invalid_configs
     (example_env (\<lambda>t. [ascii ''b.conf'', ascii ''notes.txt'', ascii ''x y.conf'', ascii ''a.conf''])
        True (\<lambda>t. exited 0 [] []) (exited 0 [] [])) initial) = [ascii ''x y.conf''] \<and>
   map card_name (cards_layout (load_configs
     (example_env (\<lambda>t. [ascii ''b.conf'', ascii ''notes.txt'', ascii ''x y.conf'', ascii ''a.conf''])
        True (\<lambda>t. exited 0 [] []) (exited 0 [] [])) initial)) = [ascii ''a'', ascii ''b'']"
proof -
  let ?E = "example_env (\<lambda>t. [ascii ''b.conf'', ascii ''notes.txt'', ascii ''x y.conf'', ascii ''a.conf''])
        True (\<lambda>t. exited 0 [] []) (exited 0 [] [])"
  have files: "sort (filter glob_match (listing ?E (clock initial)))
      = [ascii ''a.conf'', ascii ''b.conf'', ascii ''x y.conf'']"
    by (simp add: example_env_def glob_match_def ascii_def)
  have st: "stem (ascii ''a.conf'') = ascii ''a''" "stem (ascii ''b.conf'') = ascii ''b''"
     "stem (ascii ''x y.conf'') = ascii ''x y''"
    by (simp_all add: stem_def rfind_def ascii_def)
  have v: "VALID_IFACE_PATTERN_match (ascii ''a'')" "VALID_IFACE_PATTERN_match (ascii ''b'')"
     "\<not> VALID_IFACE_PATTERN_match (ascii ''x y'')"
    by (simp_all add: VALID_IFACE_PATTERN_match_def ascii_def in_class_def at_dollar_def upt_rec)
  note th = directory_scan [of ?E initial, unfolded Let_def files]
  from th have "fst (check_invalid_configs ?E initial) =
      filter (\<lambda>p. \<not> VALID_IFACE_PATTERN_match (stem p)) [ascii ''a.conf'', ascii ''b.conf'', ascii ''x y.conf'']"
    by blast
  moreover from th have "map card_name (cards_layout (load_configs ?E initial)) =
      map stem (filter (\<lambda>p. VALID_IFACE_PATTERN_match (stem p)) [ascii ''a.conf'', ascii ''b.conf'', ascii ''x y.conf''])"
    by blast
  ultimately show ?thesis
    by (simp add: st v)
qed

text \<open>
  C9 (diagnostic). When the command was launched and exited with a non-zero code, the
  warning box \<^verbatim>\<open>wg-quick error\<close> carries the stripped standard error if that is not
  empty, else the stripped standard output if that is not empty, else the fixed text
  \<^verbatim>\<open>wg-quick failed\<close>.
\<close>

theorem failure_diagnostic:
  assumes "path_exists E (clock s) (conf_path E name)"
    and "wg_quick_cmd E (conf_path E name) up (request (Exists (conf_path E name)) s) = (cmd, s2)"
    and "subprocess_run E (clock s2) cmd = Inr proc"
    and "returncode proc \<noteq> 0"
  shows "effects (snd (run_wg_quick E name up s)) =
           effects s @ [Exists (conf_path E name), Geteuid, Which, Run cmd,
             MessageBox Warning (ascii ''wg-quick error'')
               (if py_strip (stderr proc) \<noteq> [] then py_strip (stderr proc)
                else if py_strip (stdout proc) \<noteq> [] then py_strip (stdout proc)
                else ascii ''wg-quick failed''),
             Run probe_argv]"
proof -
  have s2: "s2 = request Which (request Geteuid (request (Exists (conf_path E name)) s))"
    using assms(2) by (rule wg_quick_cmd_state)
  have "run_wg_quick E name up s =
      refresh E (message_box Warning (ascii ''wg-quick error'') (failure_msg proc)
         (request (Run cmd) (s2\<lparr>status_label := ascii ''Running: '' @ join (ascii '' '') cmd\<rparr>)))"
    using assms by (simp add: run_wg_quick_def Let_def)
  then show ?thesis
    by (simp add: effects_refresh message_box_def request_def s2 failure_msg_def)
qed

theorem failure_diagnostic_witness:
  "effects (snd (run_wg_quick
      (example_env (\<lambda>t. []) True (\<lambda>t. exited 0 [] [])
         (exited 1 (ascii ''ignored'') (ascii '' Permission denied'' @ [10])))
      (ascii ''home'') True initial)) =
     [Exists (ascii ''/opt/ww/home.conf''), Geteuid, Which,
      Run [ascii ''/usr/bin/pkexec'', ascii ''wg-quick'', ascii ''up'', ascii ''/opt/ww/home.conf''],
      MessageBox Warning (ascii ''wg-quick error'') (ascii ''Permission denied''),
      Run probe_argv]"
proof -
  let ?E = "example_env (\<lambda>t. []) True (\<lambda>t. exited 0 [] [])
         (exited 1 (ascii ''ignored'') (ascii '' Permission denied'' @ [10]))"
  let ?cmd = "[ascii ''/usr/bin/pkexec'', ascii ''wg-quick'', ascii ''up'', conf_path ?E (ascii ''home'')]"
  have p: "conf_path ?E (ascii ''home'') = ascii ''/opt/ww/home.conf''"
    by (simp add: conf_path_def example_env_def ascii_def)
  have a: "path_exists ?E (clock initial) (conf_path ?E (ascii ''home''))"
    by (simp add: example_env_def)
  have b: "wg_quick_cmd ?E (conf_path ?E (ascii ''home'')) True
             (request (Exists (conf_path ?E (ascii ''home''))) initial) =
           (?cmd, request Which (request Geteuid (request (Exists (conf_path ?E (ascii ''home''))) initial)))"
    by (simp add: example_cmd)
  have c: "subprocess_run ?E (clock (request Which (request Geteuid (request (Exists (conf_path ?E (ascii ''home''))) initial)))) ?cmd
       = Inr (CompletedProcess 1 (ascii ''ignored'') (ascii '' Permission denied'' @ [10]))"
    by (simp add: example_env_def exited_def probe_argv_def ascii_def)
  have d: "returncode (CompletedProcess 1 (ascii ''ignored'') (ascii '' Permission denied'' @ [10])) \<noteq> 0"
    by simp
  have e: "py_strip (ascii '' Permission denied'' @ [10]) = ascii ''Permission denied''"
    by (simp add: py_strip_def ascii_def is_space_def)
  show ?thesis
    using failure_diagnostic [OF a b c d] p e by (simp add: initial_def) (simp add: ascii_def)
qed

text \<open>
  C10 (scanned once). The claim is that the directory is scanned exactly once, at startup.
  Startup scans it in \<^verbatim>\<open>check_invalid_configs\<close> and, when no name is invalid, again in
  \<^verbatim>\<open>load_configs\<close>: for a directory that holds \<^verbatim>\<open>home.conf\<close> only, startup logs two
  scans before its probe, and two scans is still the count after later events.
\<close>

theorem startup_scans_twice:
  "effects (snd (init (example_env (\<lambda>t. [ascii ''home.conf'']) True
                         (\<lambda>t. exited 0 [] []) (exited 0 [] []))))
     = [Glob, Glob, Run probe_argv] \<and>
   scans (snd (main (example_env (\<lambda>t. [ascii ''home.conf'']) True
                       (\<lambda>t. exited 0 [] []) (exited 0 [] []))
                 [Timeout, UpClicked 0])) = 2"
proof -
  define E where "E = example_env (\<lambda>t. [ascii ''home.conf'']) True
                         (\<lambda>t. exited 0 [] []) (exited 0 [] [])"
  have inv: "fst (check_invalid_configs E initial) = []"
    unfolding check_invalid_configs_eq E_def example_listing one_card_sorted
    by (simp add: stem_examples pattern_examples)
  have "init E = refresh E (load_configs E (request Glob initial))"
    using inv by (rule init_valid)
  then have e: "effects (snd (init E)) = [Glob, Glob, Run probe_argv]"
    by (simp add: effects_refresh effects_load_configs request_def initial_def)
  have "scans (snd (main E [Timeout, UpClicked 0])) = scans (snd (init E))"
    using same_offerD [OF same_offer_main] by blast
  also have "\<dots> = 2"
    using inv by (simp add: scans_init)
  finally show ?thesis
    using e unfolding E_def by simp
qed

text \<open>
  C10, amended. The directory is scanned at startup only: once when the first scan finds
  an invalid name, twice otherwise. The invalid names are computed from the listing at the
  first scan and the offered names from the listing at the second. After any sequence of
  events the offered names, the dictionary of cards and the number of scans are those of
  startup; the listing at any later moment plays no part. A timer event runs the probe and
  nothing else.
\<close>

theorem scanned_at_startup_only:
  "offered (snd (main E evs)) = offered (snd (init E)) \<and>
   cards (snd (main E evs)) = cards (snd (init E)) \<and>
   scans (snd (main E evs)) = scans (snd (init E)) \<and>
   scans (snd (init E)) = (if fst (check_invalid_configs E initial) \<noteq> [] then 1 else 2) \<and>
   fst (check_invalid_configs E initial) =
     filter (\<lambda>p. \<not> VALID_IFACE_PATTERN_match (stem p)) (sort (filter glob_match (listing E 0))) \<and>
   offered (snd (init E)) =
     (if fst (check_invalid_configs E initial) \<noteq> [] then []
      else map stem (filter (\<lambda>p. VALID_IFACE_PATTERN_match (stem p))
                       (sort (filter glob_match (listing E 1))))) \<and>
   effects (snd (dispatch E Timeout s)) = effects s @ [Run probe_argv]"
proof -
  have "fst (check_invalid_configs E initial) =
     filter (\<lambda>p. \<not> VALID_IFACE_PATTERN_match (stem p)) (sort (filter glob_match (listing E 0)))"
    by (simp add: check_invalid_configs_eq initial_def)
  moreover have "effects (snd (dispatch E Timeout s)) = effects s @ [Run probe_argv]"
    by (simp add: dispatch_def effects_refresh)
  moreover note same_offerD [OF same_offer_main [of E evs]] scans_init [of E] offered_init [of E]
  ultimately show ?thesis by blast
qed

theorem scanned_at_startup_only_witness:
  "offered (snd (main
      (example_env (\<lambda>t. if t < 2 then [ascii ''home.conf''] else [ascii ''home.conf'', ascii ''office.conf''])
         True (\<lambda>t. exited 0 [] []) (exited 0 [] []))
      [Timeout, UpClicked 0, Timeout])) = [ascii ''home''] \<and>
   scans (snd (main
      (example_env (\<lambda>t. if t < 2 then [ascii ''home.conf''] else [ascii ''home.conf'', ascii ''office.conf''])
         True (\<lambda>t. exited 0 [] []) (exited 0 [] []))
      [Timeout, UpClicked 0, Timeout])) = 2"
proof -
  let ?E = "example_env (\<lambda>t. if t < 2 then [ascii ''home.conf''] else [ascii ''home.conf'', ascii ''office.conf''])
         True (\<lambda>t. exited 0 [] []) (exited 0 [] [])"
  let ?evs = "[Timeout, UpClicked 0, Timeout]"
  have l: "listing ?E 0 = [ascii ''home.conf'']" "listing ?E 1 = [ascii ''home.conf'']"
    by (simp_all add: example_listing)
  have g: "sort (filter glob_match [ascii ''home.conf'']) = [ascii ''home.conf'']"
    by (simp add: glob_match_def ascii_def)
  note th = scanned_at_startup_only [of ?E ?evs initial, unfolded l g]
  from th have inv: "fst (check_invalid_configs ?E initial) = []"
    by (simp add: stem_examples pattern_examples)
  from th have "offered (snd (main ?E ?evs)) = offered (snd (init ?E))"
    and "scans (snd (main ?E ?evs)) = scans (snd (init ?E))"
    and "scans (snd (init ?E)) = (if fst (check_invalid_configs ?E initial) \<noteq> [] then 1 else 2)"
    and "offered (snd (init ?E)) =
     (if fst (check_invalid_configs ?E initial) \<noteq> [] then []
      else map stem (filter (\<lambda>p. VALID_IFACE_PATTERN_match (stem p)) [ascii ''home.conf'']))"
    by blast+
  then show ?thesis
    by (simp add: inv stem_examples pattern_examples)
qed

end
